theory Spec2Isabelle
  imports Main
begin

section \<open>Values the program handles\<close>

text \<open>
  The program (\<^verbatim>\<open>main.go\<close>) starts a centrifuge broker node, serves it over HTTP and
  drives four in-process clients. Everything it does is: calls into the libraries, log lines,
  one \<^verbatim>\<open>sync.WaitGroup\<close>, one signal channel, and panics. The libraries are not part of
  the repository, so each result a library call hands back and each callback the libraries
  fire is an input of the model (an event); what the program's own code does with it is
  translated line by line.
\<close>

type_synonym error = string
  \<comment> \<open>a non-nil Go \<^verbatim>\<open>error\<close>, by the text of its \<^verbatim>\<open>Error()\<close>; \<^verbatim>\<open>nil\<close> is \<open>None\<close> of \<open>error option\<close>\<close>

datatype level = InfoLevel | ErrorLevel | PanicLevel

datatype arg = ArgS string | ArgD int

datatype entry =
    Msg level string
  | Msgf level string "arg list"
  \<comment> \<open>one zerolog event: \<^verbatim>\<open>log.Info().Msg(m)\<close> or \<^verbatim>\<open>log.Info().Msgf(format, args...)\<close>\<close>

datatype signal = SIGINT | SIGTERM
  \<comment> \<open>\<^verbatim>\<open>os.Interrupt\<close> and \<^verbatim>\<open>syscall.SIGTERM\<close>, the two signals of line 106\<close>

fun signal_String :: "signal \<Rightarrow> string" where
  "signal_String SIGINT = ''interrupt''"
| "signal_String SIGTERM = ''terminated''"

datatype panic_value =
    Errorf string error
  | LogPanic string "arg list"
  | RuntimeError string
  \<comment> \<open>\<^verbatim>\<open>panic(fmt.Errorf(format, err))\<close>, the panic of \<^verbatim>\<open>log.Panic().Msgf\<close>, a run-time panic\<close>

datatype status = Running | Panicked panic_value | Killed signal | Exited

datatype pc =
    AtNew | AtRun | AtRoutes | AtCreate nat | AtConnect nat
  | AtWait | AtNotify | AtRecv | Returned
  \<comment> \<open>where the main goroutine stands: the library call or blocking operation named has
      not returned yet; at \<open>AtConnect i\<close> main is in \<^verbatim>\<open>clients[i].Connect()\<close>\<close>

datatype listener = NotSpawned | Spawned | Serving | Finished
  \<comment> \<open>the goroutine of lines 79-84\<close>

datatype route = AuthWebsocket | FileServer string

record srv_client =
  client_ID :: string
  client_Info :: string
  transport_Name :: string
  transport_Protocol :: string
  \<comment> \<open>what the server-side hooks read of a \<^verbatim>\<open>*centrifuge.Client\<close>\<close>

record go_client =
  endpoint :: string
  cfg_Name :: string
  cfg_Version :: string
  \<comment> \<open>a \<^verbatim>\<open>*centrigo.Client\<close> as \<^verbatim>\<open>newClient\<close> builds it (JSON protocol)\<close>

datatype subscription = Subscription string
  \<comment> \<open>a non-nil \<^verbatim>\<open>*centrigo.Subscription\<close>, by its channel\<close>

datatype struct_lit = StructLit "(string \<times> string) list"
  \<comment> \<open>a composite literal by the fields it sets: \<^verbatim>\<open>centrifuge.SubscribeReply{}\<close> sets none\<close>

datatype reply =
    SubscribeReplied srv_client string struct_lit "error option"
  | PublishReplied srv_client string struct_lit "error option"
  | RPCReplied string struct_lit "error option"
  \<comment> \<open>one invocation of a callback the server library handed to a hook\<close>

datatype call =
    CallListenAndServe string
  | CallConnect nat string
  | CallNewSubscription nat string
  | CallSubscribe nat string
  \<comment> \<open>outbound library calls whose arguments the specification speaks about\<close>

datatype sub_event =
    Join string | SubError error | Publication string | Subscribing string | Subscribed

record state =
  status :: status
  pc :: pc
  logs :: "entry list"
  wg :: int
  node_hook :: bool
  routes :: "(string \<times> route) list"
  listener :: listener
  clients :: "go_client option list"
  hooked :: "srv_client list"
  sub_hooks :: "(nat \<times> subscription) list"
  replies :: "reply list"
  calls :: "call list"
  interrupt :: "signal list option"

definition init :: state where
  "init = \<lparr>status = Running, pc = AtNew, logs = [], wg = 0, node_hook = False,
     routes = [], listener = NotSpawned, clients = [], hooked = [], sub_hooks = [],
     replies = [], calls = [], interrupt = None\<rparr>"

section \<open>Logging, panics, the wait group\<close>

definition log_Msg :: "level \<Rightarrow> string \<Rightarrow> state \<Rightarrow> state" where
  "log_Msg l m s = s\<lparr>logs := logs s @ [Msg l m]\<rparr>"

definition log_Msgf :: "level \<Rightarrow> string \<Rightarrow> arg list \<Rightarrow> state \<Rightarrow> state" where
  "log_Msgf l f as s = s\<lparr>logs := logs s @ [Msgf l f as]\<rparr>"

definition go_panic :: "panic_value \<Rightarrow> state \<Rightarrow> state" where
  "go_panic v s = s\<lparr>status := Panicked v\<rparr>"
  \<comment> \<open>no \<^verbatim>\<open>recover\<close> anywhere in the program: a panic in any goroutine ends the process\<close>

definition log_Panic_Msgf :: "string \<Rightarrow> arg list \<Rightarrow> state \<Rightarrow> state" where
  "log_Panic_Msgf f as s = go_panic (LogPanic f as) (log_Msgf PanicLevel f as s)"
  \<comment> \<open>zerolog's \<^verbatim>\<open>log.Panic().Msgf\<close>: writes the event, then panics with the message\<close>

definition wg_Add :: "int \<Rightarrow> state \<Rightarrow> state" where
  "wg_Add d s =
     (if wg s + d < 0 then go_panic (RuntimeError ''sync: negative WaitGroup counter'') s
      else s\<lparr>wg := wg s + d\<rparr>)"
  \<comment> \<open>\<^verbatim>\<open>sync.WaitGroup.Add\<close>: panics when the counter would go negative\<close>

definition wg_Done :: "state \<Rightarrow> state" where
  "wg_Done s = wg_Add (- 1) s"

section \<open>Server-side hooks (lines 39-62 and 114-116)\<close>

type_synonym callback = "struct_lit \<Rightarrow> error option \<Rightarrow> state \<Rightarrow> state"

definition on_subscribe :: "srv_client \<Rightarrow> string \<Rightarrow> callback \<Rightarrow> state \<Rightarrow> state" where
  "on_subscribe client channel cb s =
     cb (StructLit []) None
       (log_Msgf InfoLevel ''client %s (%s) subscribes on channel %s''
          [ArgS (client_ID client), ArgS (client_Info client), ArgS channel] s)"

definition on_publish :: "srv_client \<Rightarrow> string \<Rightarrow> string \<Rightarrow> callback \<Rightarrow> state \<Rightarrow> state" where
  "on_publish client channel data cb s =
     cb (StructLit []) None
       (log_Msgf InfoLevel ''client %s (%s) publishes into channel %s: %s''
          [ArgS (client_ID client), ArgS (client_Info client), ArgS channel, ArgS data] s)"

definition on_disconnect :: "srv_client \<Rightarrow> state \<Rightarrow> state" where
  "on_disconnect client s =
     log_Msgf InfoLevel ''client %s (%s) disconnected''
       [ArgS (client_ID client), ArgS (client_Info client)] s"

definition handleRPC :: "string \<Rightarrow> string \<Rightarrow> callback \<Rightarrow> state \<Rightarrow> state" where
  "handleRPC method data c s =
     log_Msgf InfoLevel ''client RPC: %s %s'' [ArgS method, ArgS data] s"

definition on_connect :: "srv_client \<Rightarrow> state \<Rightarrow> state" where
  "on_connect client s =
     wg_Done
       ((log_Msgf InfoLevel ''client %s (%s) connected via %s (%s)''
           [ArgS (client_ID client), ArgS (client_Info client),
            ArgS (transport_Name client), ArgS (transport_Protocol client)] s)
        \<lparr>hooked := hooked s @ [client]\<rparr>)"
  \<comment> \<open>logs, sets the four per-client hooks, then \<^verbatim>\<open>wg.Done()\<close>; it runs for every
      connection the node accepts and does not look at which peer opened it\<close>

definition subscribe_cb :: "srv_client \<Rightarrow> string \<Rightarrow> callback" where
  "subscribe_cb client channel r e s = s\<lparr>replies := replies s @ [SubscribeReplied client channel r e]\<rparr>"

definition publish_cb :: "srv_client \<Rightarrow> string \<Rightarrow> callback" where
  "publish_cb client channel r e s = s\<lparr>replies := replies s @ [PublishReplied client channel r e]\<rparr>"

definition rpc_cb :: "string \<Rightarrow> callback" where
  "rpc_cb method r e s = s\<lparr>replies := replies s @ [RPCReplied method r e]\<rparr>"
  \<comment> \<open>the callbacks the server library passes: invoking one sends the reply to the peer\<close>

section \<open>Client-side hooks (\<^verbatim>\<open>newClient\<close>, lines 118-179)\<close>

definition wsURL :: string where
  "wsURL = ''ws://localhost:8000/connection/websocket''"

definition newClient :: go_client where
  "newClient = \<lparr>endpoint = wsURL, cfg_Name = ''listening-go-client'', cfg_Version = ''0.0.1''\<rparr>"

definition on_connecting :: "state \<Rightarrow> state" where
  "on_connecting s = log_Msg InfoLevel ''Connecting'' s"

definition nil_dereference :: panic_value where
  "nil_dereference = RuntimeError ''invalid memory address or nil pointer dereference''"

fun sub_Channel :: "subscription \<Rightarrow> string" where
  "sub_Channel (Subscription ch) = ch"

definition NewSubscription ::
  "string \<Rightarrow> subscription option \<times> error option \<Rightarrow> subscription option \<times> error option" where
  "NewSubscription channel outcome =
     (map_option (\<lambda>_. Subscription channel) (fst outcome), snd outcome)"
  \<comment> \<open>centrifuge-go's \<^verbatim>\<open>c.NewSubscription(channel)\<close>: whether a subscription comes back and
      which error are the library's to decide (\<open>outcome\<close>); a subscription that comes back
      is bound to the channel the caller asked for\<close>

definition on_connected ::
  "nat \<Rightarrow> subscription option \<times> error option \<Rightarrow> error option \<Rightarrow> state \<Rightarrow> state" where
  "on_connected i outcome sub_err s =
     (let s1 = log_Msg InfoLevel ''Connected'' s;
          channel = ''com.jtbonhomme.server'';
          new_sub = NewSubscription channel outcome;
          s2 = s1\<lparr>calls := calls s1 @ [CallNewSubscription i channel]\<rparr>;
          s3 = (case snd new_sub of
                  Some e \<Rightarrow> log_Msgf ErrorLevel ''subscription creation error: %s'' [ArgS e] s2
                | None \<Rightarrow> s2)
      in case fst new_sub of
           None \<Rightarrow> go_panic nil_dereference s3
         | Some subServer \<Rightarrow>
             (let s4 = s3\<lparr>sub_hooks := sub_hooks s3 @ [(i, subServer)]\<rparr>;
                  s5 = s4\<lparr>calls := calls s4 @ [CallSubscribe i (sub_Channel subServer)]\<rparr>
              in case sub_err of
                   Some e \<Rightarrow> log_Msgf ErrorLevel ''subscription error: %s'' [ArgS e] s5
                 | None \<Rightarrow> s5))"
  \<comment> \<open>\<open>outcome\<close> is what the library decides for the call of line 134, \<open>sub_err\<close> what
      \<^verbatim>\<open>subServer.Subscribe()\<close> returns; line 159 names no channel, the call subscribes to
      the channel \<open>subServer\<close> is bound to. After logging a creation error the code goes on
      to \<^verbatim>\<open>subServer.OnJoin(...)\<close> (line 139); the subscription's setters store into the
      receiver, so on a nil \<^verbatim>\<open>subServer\<close> that call panics\<close>

definition on_disconnected :: "int \<Rightarrow> string \<Rightarrow> state \<Rightarrow> state" where
  "on_disconnected code reason s =
     log_Msgf InfoLevel ''Disconnected event: %d %s'' [ArgD code, ArgS reason] s"

definition on_error :: "error \<Rightarrow> state \<Rightarrow> state" where
  "on_error e s = log_Msgf InfoLevel ''error: %s'' [ArgS e] s"

definition on_message :: "string \<Rightarrow> state \<Rightarrow> state" where
  "on_message data s = log_Msgf InfoLevel ''Message received from server %s'' [ArgS data] s"

fun on_sub_event :: "sub_event \<Rightarrow> state \<Rightarrow> state" where
  "on_sub_event (Join c) s =
     log_Msgf InfoLevel ''[com.jtbonhomme.server] join event: %s'' [ArgS c] s"
| "on_sub_event (SubError e) s =
     log_Msgf InfoLevel ''[com.jtbonhomme.server] subscription error event: %s'' [ArgS e] s"
| "on_sub_event (Publication d) s =
     log_Msgf InfoLevel ''[com.jtbonhomme.server] publication event: %s'' [ArgS d] s"
| "on_sub_event (Subscribing r) s =
     log_Msgf InfoLevel ''[com.jtbonhomme.server] subscribing event: %s'' [ArgS r] s"
| "on_sub_event Subscribed s =
     log_Msgf InfoLevel ''[com.jtbonhomme.server] subscribed event'' [] s"

section \<open>The authentication middleware (lines 181-196)\<close>

record credentials =
  UserID :: string
  \<comment> \<open>\<^verbatim>\<open>centrifuge.Credentials\<close>; the literal of line 189 sets only \<^verbatim>\<open>UserID\<close>\<close>

datatype ctx_key = CredentialsKey | OtherKey string

datatype ctx_val = CredentialsVal credentials | OtherVal string

type_synonym go_context = "(ctx_key \<times> ctx_val) list"
  \<comment> \<open>a \<^verbatim>\<open>context.Context\<close> by its chain of values, the newest first\<close>

definition WithValue :: "go_context \<Rightarrow> ctx_key \<Rightarrow> ctx_val \<Rightarrow> go_context" where
  "WithValue ctx k v = (k, v) # ctx"

definition Value :: "go_context \<Rightarrow> ctx_key \<Rightarrow> ctx_val option" where
  "Value ctx k = map_of ctx k"

definition SetCredentials :: "go_context \<Rightarrow> credentials \<Rightarrow> go_context" where
  "SetCredentials ctx cred = WithValue ctx CredentialsKey (CredentialsVal cred)"

definition GetCredentials :: "go_context \<Rightarrow> credentials option" where
  "GetCredentials ctx =
     (case Value ctx CredentialsKey of Some (CredentialsVal c) \<Rightarrow> Some c | _ \<Rightarrow> None)"

record request =
  req_Method :: string
  req_URL :: string
  req_Header :: "(string \<times> string list) list"
  req_Body :: string
  req_ctx :: go_context

definition WithContext :: "request \<Rightarrow> go_context \<Rightarrow> request" where
  "WithContext r ctx = r\<lparr>req_ctx := ctx\<rparr>"
  \<comment> \<open>\<^verbatim>\<open>r.WithContext(ctx)\<close>: a shallow copy of the request with its context replaced\<close>

type_synonym ('w, 'h) handler = "'w \<Rightarrow> request \<Rightarrow> 'h \<Rightarrow> 'h"
  \<comment> \<open>\<^verbatim>\<open>ServeHTTP(w, r)\<close> as an action on whatever the handler touches\<close>

definition auth :: "('w, 'h) handler \<Rightarrow> ('w, 'h) handler" where
  "auth h w r =
     (let ctx = req_ctx r;
          cred = \<lparr>UserID = ''''\<rparr>;
          newCtx = SetCredentials ctx cred;
          r' = WithContext r newCtx
      in h w r')"

definition served :: "('w, ('w \<times> request) list) handler" where
  "served w r seen = seen @ [(w, r)]"
  \<comment> \<open>a wrapped handler that only records each call it receives\<close>

section \<open>The main goroutine (lines 19-112), cut at its library calls\<close>

definition loop_head :: "nat \<Rightarrow> state \<Rightarrow> state" where
  "loop_head i s =
     (if i < 4 then s\<lparr>pc := AtCreate i\<rparr>
      else (log_Msgf InfoLevel ''waiting for all clients to connected'' [] s)\<lparr>pc := AtWait\<rparr>)"
  \<comment> \<open>the test \<^verbatim>\<open>i < 4\<close> of line 88; on exit, line 98\<close>

definition main_New :: "error option \<Rightarrow> state \<Rightarrow> state" where
  "main_New r s =
     (case r of
        Some err \<Rightarrow> go_panic (Errorf ''error instantiating new centrifuge node: %w'' err) s
      | None \<Rightarrow> s\<lparr>node_hook := True, pc := AtRun\<rparr>)"
  \<comment> \<open>lines 32-62: \<^verbatim>\<open>centrifuge.New\<close> returned \<open>r\<close>; then \<^verbatim>\<open>node.OnConnect\<close> registers the hook
      (lines 24-30 before it only configure the logger)\<close>

definition main_Run :: "error option \<Rightarrow> state \<Rightarrow> state" where
  "main_Run r s =
     (case r of
        Some err \<Rightarrow> go_panic (Errorf ''error running centrifuge node: %w'' err) s
      | None \<Rightarrow> s\<lparr>pc := AtRoutes\<rparr>)"

definition main_Routes :: "state \<Rightarrow> state" where
  "main_Routes s =
     loop_head 0
       (s\<lparr>routes := routes s @ [(''/connection/websocket'', AuthWebsocket),
                                 (''/'', FileServer ''./public'')],
          listener := Spawned,
          clients := replicate 4 None\<rparr>)"
  \<comment> \<open>lines 71-88: both routes, the \<^verbatim>\<open>go\<close> statement, \<^verbatim>\<open>make([]*centrigo.Client, 4)\<close>\<close>

definition listen_start :: "state \<Rightarrow> state" where
  "listen_start s =
     (log_Msgf InfoLevel ''Starting server, visit http://localhost:8000'' [] s)
       \<lparr>calls := calls s @ [CallListenAndServe '':8000''], listener := Serving\<rparr>"

definition listen_return :: "error option \<Rightarrow> state \<Rightarrow> state" where
  "listen_return r s =
     (case r of
        Some err \<Rightarrow> go_panic (Errorf ''error listening on :8000: %w'' err) s
      | None \<Rightarrow> s\<lparr>listener := Finished\<rparr>)"

definition main_Create :: "nat \<Rightarrow> state \<Rightarrow> state" where
  "main_Create i s =
     (if i < length (clients s) then
        (wg_Add 1
           ((log_Msgf InfoLevel ''create player %d'' [ArgD (int i)] s)
              \<lparr>clients := (clients s)[i := Some newClient]\<rparr>))
          \<lparr>pc := AtConnect i\<rparr>
      else go_panic (RuntimeError ''index out of range'') s)"
  \<comment> \<open>lines 89-91\<close>

definition main_Connect :: "nat \<Rightarrow> error option \<Rightarrow> state \<Rightarrow> state" where
  "main_Connect i r s =
     (if i < length (clients s) then
        (case clients s ! i of
           None \<Rightarrow> go_panic nil_dereference s
         | Some c \<Rightarrow>
             (let s1 = s\<lparr>calls := calls s @ [CallConnect i (endpoint c)]\<rparr>
              in case r of
                   Some err \<Rightarrow>
                     log_Panic_Msgf ''connect client %d error: %s'' [ArgD (int i), ArgS err] s1
                 | None \<Rightarrow> loop_head (Suc i) s1))
      else go_panic (RuntimeError ''index out of range'') s)"
  \<comment> \<open>lines 92-96: \<^verbatim>\<open>clients[i].Connect()\<close> returned \<open>r\<close>\<close>

definition main_Wait :: "state \<Rightarrow> state" where
  "main_Wait s = (log_Msgf InfoLevel ''all client  connected'' [] s)\<lparr>pc := AtNotify\<rparr>"
  \<comment> \<open>lines 100-102, once \<^verbatim>\<open>wg.Wait()\<close> has returned\<close>

definition main_Notify :: "state \<Rightarrow> state" where
  "main_Notify s = s\<lparr>interrupt := Some [], pc := AtRecv\<rparr>"
  \<comment> \<open>lines 105-106: a channel of capacity 1, registered for both signals\<close>

definition main_Recv :: "signal \<Rightarrow> signal list \<Rightarrow> state \<Rightarrow> state" where
  "main_Recv sig rest s =
     (log_Msg InfoLevel ''exit''
        (log_Msg InfoLevel (''received signal: '' @ signal_String sig)
           (s\<lparr>interrupt := Some rest\<rparr>)))
       \<lparr>status := Exited, pc := Returned\<rparr>"
  \<comment> \<open>lines 108-112: the receive took \<open>sig\<close> off the channel; \<^verbatim>\<open>main\<close> returns\<close>

definition deliver :: "signal \<Rightarrow> state \<Rightarrow> state" where
  "deliver sig s =
     (case interrupt s of
        None \<Rightarrow> s\<lparr>status := Killed sig\<rparr>
      | Some q \<Rightarrow> (if length q < 1 then s\<lparr>interrupt := Some (q @ [sig])\<rparr> else s))"
  \<comment> \<open>the Go runtime: before \<^verbatim>\<open>signal.Notify\<close> either signal ends the process; after it
      the signal is sent to the channel without blocking, so it is dropped when the buffer
      is full\<close>

section \<open>Events and runs\<close>

datatype peer = Player nat | Outside
  \<comment> \<open>who opened a connection to the public endpoint: \<^verbatim>\<open>clients[i]\<close>, or anyone else
      able to reach port 8000\<close>

datatype event =
    New "error option"
  | Run "error option"
  | Routes
  | Create
  | Connect "error option"
  | Wait
  | Notify
  | Recv
  | ListenStart
  | ListenReturn "error option"
  | SrvConnect peer srv_client
  | SrvSubscribe srv_client string
  | SrvPublish srv_client string string
  | SrvDisconnect srv_client
  | SrvRPC srv_client string string
  | CliConnecting nat
  | CliConnected nat "subscription option \<times> error option" "error option"
  | CliDisconnected nat int string
  | CliError nat error
  | CliMessage nat string
  | SubEvent nat sub_event
  | Signal signal

fun connect_of :: "call \<Rightarrow> nat option" where
  "connect_of (CallConnect i url) = Some i"
| "connect_of _ = None"

definition started :: "nat \<Rightarrow> state \<Rightarrow> bool" where
  "started i s = (Some i \<in> set (map connect_of (calls s)) \<or> pc s = AtConnect i)"
  \<comment> \<open>\<^verbatim>\<open>clients[i].Connect()\<close> has returned or is under way: the library fires the
      client's hooks, and the node may accept its connection, from inside the call on\<close>

fun dialled :: "peer \<Rightarrow> state \<Rightarrow> bool" where
  "dialled (Player i) s = started i s"
| "dialled Outside s = True"

fun exec :: "event \<Rightarrow> state \<Rightarrow> state option" where
  "exec (New r) s = (if pc s = AtNew then Some (main_New r s) else None)"
| "exec (Run r) s = (if pc s = AtRun then Some (main_Run r s) else None)"
| "exec Routes s = (if pc s = AtRoutes then Some (main_Routes s) else None)"
| "exec Create s = (case pc s of AtCreate i \<Rightarrow> Some (main_Create i s) | _ \<Rightarrow> None)"
| "exec (Connect r) s = (case pc s of AtConnect i \<Rightarrow> Some (main_Connect i r s) | _ \<Rightarrow> None)"
| "exec Wait s = (if pc s = AtWait \<and> wg s = 0 then Some (main_Wait s) else None)"
| "exec Notify s = (if pc s = AtNotify then Some (main_Notify s) else None)"
| "exec Recv s =
     (if pc s = AtRecv then
        (case interrupt s of
           Some (sig # rest) \<Rightarrow> Some (main_Recv sig rest s)
         | _ \<Rightarrow> None)
      else None)"
| "exec ListenStart s = (if listener s = Spawned then Some (listen_start s) else None)"
| "exec (ListenReturn r) s = (if listener s = Serving then Some (listen_return r s) else None)"
| "exec (SrvConnect p c) s =
     (if node_hook s \<and> listener s = Serving \<and> dialled p s then Some (on_connect c s) else None)"
| "exec (SrvSubscribe c ch) s =
     (if c \<in> set (hooked s) then Some (on_subscribe c ch (subscribe_cb c ch) s) else None)"
| "exec (SrvPublish c ch d) s =
     (if c \<in> set (hooked s) then Some (on_publish c ch d (publish_cb c ch) s) else None)"
| "exec (SrvDisconnect c) s =
     (if c \<in> set (hooked s) then Some (on_disconnect c s) else None)"
| "exec (SrvRPC c m d) s =
     (if c \<in> set (hooked s) then Some (handleRPC m d (rpc_cb m) s) else None)"
| "exec (CliConnecting i) s = (if started i s then Some (on_connecting s) else None)"
| "exec (CliConnected i ns se) s = (if started i s then Some (on_connected i ns se s) else None)"
| "exec (CliDisconnected i c r) s = (if started i s then Some (on_disconnected c r s) else None)"
| "exec (CliError i e) s = (if started i s then Some (on_error e s) else None)"
| "exec (CliMessage i d) s = (if started i s then Some (on_message d s) else None)"
| "exec (SubEvent i ev) s =
     (if i \<in> fst ` set (sub_hooks s) then Some (on_sub_event ev s) else None)"
| "exec (Signal sig) s = Some (deliver sig s)"

definition step :: "event \<Rightarrow> state \<Rightarrow> state option" where
  "step e s = (if status s = Running then exec e s else None)"
  \<comment> \<open>\<open>None\<close>: the event cannot happen in \<open>s\<close> (the goroutine is elsewhere or blocked, the
      hook is not registered, or the process has ended)\<close>

fun run :: "event list \<Rightarrow> state \<Rightarrow> state option" where
  "run [] s = Some s"
| "run (e # es) s = (case step e s of None \<Rightarrow> None | Some s' \<Rightarrow> run es s')"

fun accepted :: "event list \<Rightarrow> peer list" where
  "accepted [] = []"
| "accepted (SrvConnect p c # es) = p # accepted es"
| "accepted (e # es) = accepted es"
  \<comment> \<open>the peers whose connections the node accepted, one per run of the on-connect hook\<close>

fun past_barrier :: "pc \<Rightarrow> bool" where
  "past_barrier AtNotify = True"
| "past_barrier AtRecv = True"
| "past_barrier Returned = True"
| "past_barrier _ = False"

section \<open>Vocabulary of the properties\<close>

text \<open>
  The functions of this section are not part of the program: they name what the
  properties below speak about (which calls were made, which replies were sent) and the
  concrete runs the properties are exercised on.
\<close>

fun is_rpc_reply :: "reply \<Rightarrow> bool" where
  "is_rpc_reply (RPCReplied m r e) = True"
| "is_rpc_reply _ = False"

fun conforms :: "call \<Rightarrow> bool" where
  "conforms (CallListenAndServe a) = (a = '':8000'')"
| "conforms (CallConnect i u) = (i < 4 \<and> u = ''ws://localhost:8000/connection/websocket'')"
| "conforms (CallNewSubscription i ch) = (i < 4 \<and> ch = ''com.jtbonhomme.server'')"
| "conforms (CallSubscribe i ch) = (i < 4 \<and> ch = ''com.jtbonhomme.server'')"

fun callback_event :: "event \<Rightarrow> bool" where
  "callback_event (SrvConnect p c) = True"
| "callback_event (SrvSubscribe c ch) = True"
| "callback_event (SrvPublish c ch d) = True"
| "callback_event (SrvDisconnect c) = True"
| "callback_event (SrvRPC c m d) = True"
| "callback_event (CliConnecting i) = True"
| "callback_event (CliDisconnected i c r) = True"
| "callback_event (CliError i e) = True"
| "callback_event (CliMessage i d) = True"
| "callback_event (SubEvent i ev) = True"
| "callback_event (ListenReturn r) = True"
| "callback_event _ = False"
  \<comment> \<open>events that run a hook which neither moves the main goroutine nor calls out\<close>

definition in_loop :: "state \<Rightarrow> bool" where
  "in_loop s = (case pc s of AtCreate i \<Rightarrow> i < 4 | AtConnect i \<Rightarrow> i < 4 | _ \<Rightarrow> True)"

definition calls_ok :: "state \<Rightarrow> bool" where
  "calls_ok s =
     (list_all conforms (calls s)
      \<and> list_all (\<lambda>c. c = None \<or> c = Some newClient) (clients s)
      \<and> in_loop s)"

definition peer_of :: "string \<Rightarrow> srv_client" where
  "peer_of n = \<lparr>client_ID = n, client_Info = '''', transport_Name = ''websocket'',
     transport_Protocol = ''json''\<rparr>"

definition boot :: "event list" where
  "boot = [New None, Run None, Routes, ListenStart,
     Create, Connect None, Create, Connect None, Create, Connect None, Create, Connect None]"
  \<comment> \<open>a start in which every library call succeeds, up to \<^verbatim>\<open>wg.Wait()\<close>\<close>

definition startup :: "event list" where
  "startup = boot @ [SrvConnect (Player 0) (peer_of ''a''), SrvConnect (Player 1) (peer_of ''b''),
     SrvConnect (Player 2) (peer_of ''c''), SrvConnect (Player 3) (peer_of ''d''), Wait, Notify]"
  \<comment> \<open>the four clients are accepted, the barrier opens, the signal handler is installed\<close>

definition state_after :: "event list \<Rightarrow> state" where
  "state_after tr = (case run tr init of Some s \<Rightarrow> s | None \<Rightarrow> init)"
  \<comment> \<open>the state a run from the program's start ends in\<close>

fun is_connect :: "call \<Rightarrow> bool" where
  "is_connect (CallConnect i u) = True"
| "is_connect _ = False"

fun dials :: "pc \<Rightarrow> nat" where
  "dials AtNew = 0"
| "dials AtRun = 0"
| "dials AtRoutes = 0"
| "dials (AtCreate i) = i"
| "dials (AtConnect i) = i"
| "dials _ = 4"
  \<comment> \<open>how many \<^verbatim>\<open>Connect()\<close> calls have returned without error when main stands at a point\<close>

definition dial_inv :: "state \<Rightarrow> bool" where
  "dial_inv s =
     (filter is_connect (calls s) = map (\<lambda>i. CallConnect i wsURL) [0..<dials (pc s)]
      \<or> (status s \<noteq> Running \<and> (case pc s of AtConnect i \<Rightarrow> True | _ \<Rightarrow> False)))"

definition sig_inv :: "state \<Rightarrow> bool" where
  "sig_inv s =
     (case interrupt s of
        None \<Rightarrow> True
      | Some q \<Rightarrow> length q \<le> 1 \<and> (pc s = AtRecv \<or> status s = Exited))"

fun adds :: "pc \<Rightarrow> nat" where
  "adds AtNew = 0"
| "adds AtRun = 0"
| "adds AtRoutes = 0"
| "adds (AtCreate i) = i"
| "adds (AtConnect i) = Suc i"
| "adds _ = 4"
  \<comment> \<open>how many times \<^verbatim>\<open>wg.Add(1)\<close> has run when main stands at a point\<close>

definition wg_inv :: "event list \<Rightarrow> state \<Rightarrow> bool" where
  "wg_inv tr s =
     (0 \<le> wg s
      \<and> (status s = Running \<longrightarrow> wg s = int (adds (pc s)) - int (length (accepted tr)))
      \<and> (past_barrier (pc s) \<longrightarrow> 4 \<le> length (accepted tr)))"

fun bystander :: "event \<Rightarrow> bool" where
  "bystander ListenStart = True"
| "bystander (Signal sg) = True"
| "bystander (CliConnected i ns se) = True"
| "bystander (SrvConnect p c) = False"
| "bystander e = callback_event e"
  \<comment> \<open>events that touch neither the main goroutine nor the wait group\<close>

definition early_release :: "event list" where
  "early_release = boot @ [SrvConnect (Player 0) (peer_of ''a''),
     SrvConnect (Player 1) (peer_of ''b''), SrvConnect (Player 2) (peer_of ''c''),
     SrvConnect Outside (peer_of ''x''), Wait]"
  \<comment> \<open>a browser reaches the endpoint before the fourth client's connection is accepted\<close>

definition early_reconnect :: "event list" where
  "early_reconnect = boot @ [SrvConnect (Player 0) (peer_of ''a''),
     CliDisconnected 0 3000 ''connection closed'', SrvDisconnect (peer_of ''a''),
     SrvConnect (Player 0) (peer_of ''e''), SrvConnect (Player 1) (peer_of ''b''),
     SrvConnect (Player 2) (peer_of ''c''), Wait]"
  \<comment> \<open>no outside peer: the first client loses its connection and connects again\<close>

fun is_listen :: "call \<Rightarrow> bool" where
  "is_listen (CallListenAndServe a) = True"
| "is_listen _ = False"

fun is_sub :: "call \<Rightarrow> bool" where
  "is_sub (CallNewSubscription i ch) = True"
| "is_sub (CallSubscribe i ch) = True"
| "is_sub _ = False"

fun sub_calls_of :: "event \<Rightarrow> call list" where
  "sub_calls_of (CliConnected i outcome sub_err) =
     CallNewSubscription i ''com.jtbonhomme.server''
       # (case fst outcome of None \<Rightarrow> [] | Some sb \<Rightarrow> [CallSubscribe i ''com.jtbonhomme.server''])"
| "sub_calls_of _ = []"
  \<comment> \<open>the subscription calls one event is expected to cause: a connected event of client
      \<open>i\<close> asks for the subscription and, when it got one, activates it\<close>

definition listen_inv :: "state \<Rightarrow> bool" where
  "listen_inv s =
     (filter is_listen (calls s)
        = (if listener s = Serving \<or> listener s = Finished then [CallListenAndServe '':8000'']
           else [])
      \<and> (pc s = AtNew \<or> pc s = AtRun \<or> pc s = AtRoutes \<longrightarrow> listener s = NotSpawned))"

definition created :: "subscription option \<times> error option" where
  "created = (Some (Subscription ''com.jtbonhomme.server''), None)"
  \<comment> \<open>\<^verbatim>\<open>NewSubscription\<close> succeeds\<close>

definition subscribed :: "event list" where
  "subscribed = startup @ [CliConnected 0 created None, CliConnected 1 created None,
     CliConnected 2 created None, CliConnected 3 created None]"
  \<comment> \<open>after startup each client's connected event arrives and its subscription is created\<close>

definition duplicate :: "subscription option \<times> error option" where
  "duplicate = (None, Some ''duplicate subscription'')"
  \<comment> \<open>what \<^verbatim>\<open>NewSubscription\<close> returns when it fails: no subscription, and the error\<close>

definition loop_inv :: "state \<Rightarrow> bool" where
  "loop_inv s =
     (case pc s of
        AtCreate i \<Rightarrow> i < 4 \<and> length (clients s) = 4
      | AtConnect i \<Rightarrow> i < 4 \<and> length (clients s) = 4 \<and> clients s ! i = Some newClient
      | _ \<Rightarrow> True)"

section \<open>Runs and invariants\<close>

lemmas handler_defs =
  main_New_def main_Run_def main_Routes_def loop_head_def
  listen_start_def listen_return_def main_Create_def main_Connect_def main_Wait_def
  main_Notify_def main_Recv_def deliver_def on_connect_def wg_Done_def wg_Add_def
  log_Msg_def log_Msgf_def go_panic_def log_Panic_Msgf_def
  on_connected_def NewSubscription_def on_connecting_def on_disconnected_def on_error_def
  on_message_def
  on_subscribe_def on_publish_def on_disconnect_def handleRPC_def
  subscribe_cb_def publish_cb_def rpc_cb_def Let_def

lemmas run_defs =
  startup_def boot_def peer_of_def init_def step_def started_def newClient_def
  nil_dereference_def state_after_def

lemma run_append:
  "run (es @ es') s = (case run es s of None \<Rightarrow> None | Some s' \<Rightarrow> run es' s')"
  by (induction es arbitrary: s) (simp_all split: option.splits)

lemma run_invariant:
  assumes "run es s = Some s'" and "P s"
    and "\<And>e s s'. P s \<Longrightarrow> step e s = Some s' \<Longrightarrow> P s'"
  shows "P s'"
  using assms(1,2)
proof (induction es arbitrary: s)
  case Nil
  then show ?case by simp
next
  case (Cons e es)
  then show ?case using assms(3) by (auto split: option.splits)
qed

lemma step_replies:
  assumes "step e s = Some s'"
  shows "replies s' = replies s @
     (case e of
        SrvSubscribe c ch \<Rightarrow> [SubscribeReplied c ch (StructLit []) None]
      | SrvPublish c ch d \<Rightarrow> [PublishReplied c ch (StructLit []) None]
      | _ \<Rightarrow> [])"
proof (cases e)
  case (SubEvent i ev)
  then show ?thesis using assms
    by (cases ev) (auto simp: step_def log_Msgf_def split: if_splits)
qed (use assms in \<open>auto simp: step_def handler_defs
       split: if_splits pc.splits option.splits list.splits\<close>)

lemma step_keeps_rpc_silent:
  assumes "step e s = Some s'"
  shows "filter is_rpc_reply (replies s') = filter is_rpc_reply (replies s)"
  using step_replies [OF assms] by (cases e) simp_all

lemma startup_runs:
  "status (state_after startup) = Running \<and> pc (state_after startup) = AtRecv
   \<and> hooked (state_after startup) = [peer_of ''a'', peer_of ''b'', peer_of ''c'', peer_of ''d'']
   \<and> replies (state_after startup) = [] \<and> interrupt (state_after startup) = Some []"
  by (simp add: run_defs handler_defs)

section \<open>The authentication middleware\<close>

text \<open>
  C4. For every request, whatever its headers and the rest of its content, \<^verbatim>\<open>auth\<close> hands
  the wrapped handler a request whose context carries credentials with the empty user
  identity. The request \<open>r'\<close> is the same for every wrapped handler \<open>h\<close>; with the
  recording handler it is the one request seen.
\<close>

theorem auth_attaches_anonymous:
  "\<exists>r'. (\<forall>h st. auth h w r st = h w r' st)
      \<and> auth served w r [] = [(w, r')]
      \<and> GetCredentials (req_ctx r') = Some \<lparr>UserID = ''''\<rparr>"
  by (rule exI [of _ "WithContext r (SetCredentials (req_ctx r) \<lparr>UserID = ''''\<rparr>)"])
     (simp add: auth_def served_def WithContext_def SetCredentials_def GetCredentials_def
        WithValue_def Value_def)

text \<open>
  C10. For every request, \<^verbatim>\<open>auth\<close> invokes the wrapped handler exactly once (the recording
  handler sees one more call, and for any handler the effect of \<^verbatim>\<open>auth h\<close> is that of one
  call of \<open>h\<close>), with the response writer it was given and a request that keeps the method,
  URL, headers and body and every other context value; only the credentials are added.
\<close>

theorem auth_forwards_once:
  "\<exists>r'. auth served w r seen = seen @ [(w, r')]
      \<and> (\<forall>h st. auth h w r st = h w r' st)
      \<and> req_Method r' = req_Method r \<and> req_URL r' = req_URL r
      \<and> req_Header r' = req_Header r \<and> req_Body r' = req_Body r
      \<and> r' = r\<lparr>req_ctx := (CredentialsKey, CredentialsVal \<lparr>UserID = ''''\<rparr>) # req_ctx r\<rparr>
      \<and> (\<forall>k. Value (req_ctx r') (OtherKey k) = Value (req_ctx r) (OtherKey k))"
  by (rule exI [of _ "WithContext r (SetCredentials (req_ctx r) \<lparr>UserID = ''''\<rparr>)"])
     (simp add: auth_def served_def WithContext_def SetCredentials_def
        WithValue_def Value_def)

section \<open>The server-side hooks\<close>

text \<open>
  C5. For every client the on-connect hook has set up and every subscribe or publish event,
  whatever the channel and the payload, the hook can run and invokes the callback it is
  given exactly once, with the zero-value reply and a nil error: one success reply is sent
  and the process keeps running. The hook does this for any callback, after writing its
  log line, and tests nothing.
\<close>

theorem subscribe_publish_accepted:
  assumes "status s = Running" and "c \<in> set (hooked s)"
  shows "(\<exists>s'. step (SrvSubscribe c ch) s = Some s'
            \<and> replies s' = replies s @ [SubscribeReplied c ch (StructLit []) None]
            \<and> status s' = Running)
       \<and> (\<exists>s'. step (SrvPublish c ch d) s = Some s'
            \<and> replies s' = replies s @ [PublishReplied c ch (StructLit []) None]
            \<and> status s' = Running)
       \<and> (\<forall>cb. on_subscribe c ch cb s = cb (StructLit []) None
             (log_Msgf InfoLevel ''client %s (%s) subscribes on channel %s''
                [ArgS (client_ID c), ArgS (client_Info c), ArgS ch] s))
       \<and> (\<forall>cb. on_publish c ch d cb s = cb (StructLit []) None
             (log_Msgf InfoLevel ''client %s (%s) publishes into channel %s: %s''
                [ArgS (client_ID c), ArgS (client_Info c), ArgS ch, ArgS d] s))"
  using assms
  by (simp add: step_def on_subscribe_def on_publish_def subscribe_cb_def publish_cb_def
        log_Msgf_def)

theorem subscribe_publish_accepted_witness:
  "status (state_after startup) = Running
   \<and> peer_of ''a'' \<in> set (hooked (state_after startup))
   \<and> map_option replies (step (SrvSubscribe (peer_of ''a'') ''news'') (state_after startup))
       = Some [SubscribeReplied (peer_of ''a'') ''news'' (StructLit []) None]
   \<and> map_option replies (step (SrvPublish (peer_of ''a'') ''news'' ''hi'') (state_after startup))
       = Some [PublishReplied (peer_of ''a'') ''news'' (StructLit []) None]"
proof -
  have run: "status (state_after startup) = Running"
    and hooked: "peer_of ''a'' \<in> set (hooked (state_after startup))"
    and none: "replies (state_after startup) = []"
    using startup_runs by simp_all
  from subscribe_publish_accepted [OF run hooked, of "''news''" "''hi''"] run hooked none
  show ?thesis by auto
qed

text \<open>
  C6. For every RPC event, \<^verbatim>\<open>handleRPC\<close> appends one log entry holding the method name and
  the payload and changes nothing else of the program state; it computes no response.
\<close>

theorem handleRPC_only_logs:
  "handleRPC method data c s =
     s\<lparr>logs := logs s @ [Msgf InfoLevel ''client RPC: %s %s'' [ArgS method, ArgS data]]\<rparr>"
  by (simp add: handleRPC_def log_Msgf_def)

text \<open>
  C9. The RPC hook never invokes the callback it is given: its result does not depend on
  the callback, and in every state the program can reach, whatever RPCs clients have issued,
  no RPC reply (success or error) has been sent.
\<close>

theorem rpc_never_answered:
  assumes "run tr init = Some s"
  shows "filter is_rpc_reply (replies s) = [] \<and> (\<forall>c c'. handleRPC m d c = handleRPC m d c')"
proof
  have "filter is_rpc_reply (replies init) = []" by (simp add: init_def)
  with assms show "filter is_rpc_reply (replies s) = []"
    by (rule run_invariant [where P = "\<lambda>s. filter is_rpc_reply (replies s) = []"])
       (simp add: step_keeps_rpc_silent)
  show "\<forall>c c'. handleRPC m d c = handleRPC m d c'"
    by (simp add: handleRPC_def fun_eq_iff)
qed

theorem rpc_never_answered_witness:
  "run (startup @ [SrvRPC (peer_of ''a'') ''ping'' ''{}'']) init
     = Some (handleRPC ''ping'' ''{}'' (rpc_cb ''ping'') (state_after startup))
   \<and> filter is_rpc_reply
       (replies (handleRPC ''ping'' ''{}'' (rpc_cb ''ping'') (state_after startup))) = []"
proof -
  have r: "run (startup @ [SrvRPC (peer_of ''a'') ''ping'' ''{}'']) init
     = Some (handleRPC ''ping'' ''{}'' (rpc_cb ''ping'') (state_after startup))"
    by (simp add: run_defs handler_defs)
  from rpc_never_answered [OF r] r show ?thesis by simp
qed

section \<open>Port, endpoint and channel\<close>

lemma started_bound: "list_all conforms cs \<Longrightarrow> Some i \<in> set (map connect_of cs) \<Longrightarrow> i < 4"
proof (induction cs)
  case Nil
  then show ?case by simp
next
  case (Cons c cs)
  then show ?case by (cases c) auto
qed

lemma started_lt_4:
  assumes "calls_ok s" and "started i s"
  shows "i < 4"
  using assms started_bound [of "calls s" i]
  by (auto simp: started_def calls_ok_def in_loop_def)

lemma list_all_update: "list_all P xs \<Longrightarrow> P x \<Longrightarrow> list_all P (xs[i := x])"
  by (induction xs arbitrary: i) (auto split: nat.splits)

lemma list_all_replicate: "P x \<Longrightarrow> list_all P (replicate n x)"
  by (induction n) simp_all

lemma callback_frame:
  assumes "step e s = Some s'" and "callback_event e"
  shows "pc s' = pc s \<and> calls s' = calls s \<and> clients s' = clients s
     \<and> interrupt s' = interrupt s"
proof (cases e)
  case (SubEvent i ev)
  then show ?thesis using assms
    by (cases ev) (auto simp: step_def log_Msgf_def split: if_splits)
qed (use assms in \<open>auto simp: step_def handler_defs split: if_splits option.splits\<close>)

lemma step_calls_ok_callback:
  assumes "step e s = Some s'" and "callback_event e" and "calls_ok s"
  shows "calls_ok s'"
  using callback_frame [OF assms(1,2)] assms(3) by (simp add: calls_ok_def in_loop_def)

lemma step_calls_ok_main:
  assumes "step e s = Some s'" and "calls_ok s"
    and "e = New r \<or> e = Run r \<or> e = Routes \<or> e = Wait \<or> e = Notify \<or> e = Recv
       \<or> e = ListenStart \<or> e = Signal sig"
  shows "calls_ok s'"
  using assms
  by (auto simp: step_def calls_ok_def in_loop_def main_New_def main_Run_def main_Routes_def
        main_Wait_def main_Notify_def main_Recv_def listen_start_def deliver_def loop_head_def
        go_panic_def log_Msg_def log_Msgf_def list_all_replicate
      split: if_splits option.splits list.splits)

lemma step_calls_ok_Create:
  assumes "step Create s = Some s'" and "calls_ok s"
  shows "calls_ok s'"
  using assms
  by (auto simp: step_def calls_ok_def in_loop_def main_Create_def wg_Add_def go_panic_def
        log_Msgf_def list_all_update split: if_splits pc.splits)

lemma connect_cases:
  assumes "step (Connect r) s = Some s'" and "calls_ok s"
  obtains i where "pc s = AtConnect i" and "i < 4" and "status s' \<noteq> Running"
      and "pc s' = AtConnect i" and "list_all conforms (calls s')" and "clients s' = clients s"
      and "wg s' = wg s"
  | i where "pc s = AtConnect i" and "i < 4" and "status s' = Running"
      and "pc s' = (if Suc i < 4 then AtCreate (Suc i) else AtWait)"
      and "calls s' = calls s @ [CallConnect i wsURL]" and "clients s' = clients s"
      and "wg s' = wg s"
proof -
  from assms obtain i where i: "pc s = AtConnect i" "s' = main_Connect i r s" "i < 4"
      "status s = Running"
    by (auto simp: step_def calls_ok_def in_loop_def split: if_splits pc.splits)
  show thesis
  proof (cases "i < length (clients s)")
    case False
    with assms(2) i show ?thesis
      by (intro that(1) [of i]) (simp_all add: main_Connect_def go_panic_def calls_ok_def)
  next
    case True
    with assms(2) have c: "clients s ! i = None \<or> clients s ! i = Some newClient"
      by (simp add: calls_ok_def list_all_length)
    show ?thesis
    proof (cases "clients s ! i = Some newClient \<and> r = None")
      case True
      with \<open>i < length (clients s)\<close> i show ?thesis
        by (intro that(2) [of i])
           (simp_all add: main_Connect_def Let_def newClient_def loop_head_def log_Msgf_def)
    next
      case False
      with c \<open>i < length (clients s)\<close> i assms(2) show ?thesis
        by (intro that(1) [of i])
           (auto simp: main_Connect_def Let_def newClient_def wsURL_def go_panic_def
              log_Panic_Msgf_def log_Msgf_def calls_ok_def)
    qed
  qed
qed

lemma step_calls_ok_Connect:
  assumes "step (Connect r) s = Some s'" and "calls_ok s"
  shows "calls_ok s'"
  using assms
  by (rule connect_cases) (use assms(2) in \<open>auto simp: calls_ok_def in_loop_def wsURL_def\<close>)

lemma step_calls_ok_CliConnected:
  assumes "step (CliConnected i ns se) s = Some s'" and "calls_ok s"
  shows "calls_ok s'"
proof -
  from assms have st: "started i s" and s': "s' = on_connected i ns se s"
    by (auto simp: step_def split: if_splits)
  from assms(2) st have "i < 4" by (rule started_lt_4)
  with assms(2) show ?thesis unfolding s'
    by (cases "fst ns")
       (simp_all add: calls_ok_def in_loop_def on_connected_def NewSubscription_def Let_def
          log_Msg_def log_Msgf_def go_panic_def split: option.splits)
qed

lemma step_calls_ok:
  assumes "step e s = Some s'" and "calls_ok s"
  shows "calls_ok s'"
proof (cases "callback_event e")
  case True
  show ?thesis by (rule step_calls_ok_callback [OF assms(1) True assms(2)])
next
  case False
  then show ?thesis
  proof (cases e)
    case Create
    with assms show ?thesis by (simp add: step_calls_ok_Create)
  next
    case (Connect r)
    with assms show ?thesis by (simp add: step_calls_ok_Connect)
  next
    case (CliConnected i ns se)
    with assms show ?thesis by (simp add: step_calls_ok_CliConnected)
  qed (use assms in \<open>auto intro: step_calls_ok_main\<close>)
qed

lemma step_dial_inv:
  assumes "step e s = Some s'" and "calls_ok s" and "dial_inv s"
  shows "dial_inv s'"
proof -
  from assms(1) have running: "status s = Running" by (simp add: step_def split: if_splits)
  with assms(3) have d: "filter is_connect (calls s) = map (\<lambda>i. CallConnect i wsURL) [0..<dials (pc s)]"
    by (simp add: dial_inv_def)
  show ?thesis
  proof (cases "callback_event e")
    case True
    from callback_frame [OF assms(1) True] d show ?thesis by (simp add: dial_inv_def)
  next
    case False
    then show ?thesis
    proof (cases e)
      case (Connect r)
      from assms(1,2) show ?thesis unfolding Connect
      proof (rule connect_cases)
        fix i assume "pc s' = AtConnect i" "status s' \<noteq> Running"
        then show ?thesis by (simp add: dial_inv_def)
      next
        fix i assume "pc s = AtConnect i" "i < 4"
          "pc s' = (if Suc i < 4 then AtCreate (Suc i) else AtWait)"
          "calls s' = calls s @ [CallConnect i wsURL]"
        moreover from this have "dials (pc s') = Suc i" by (cases "Suc i < 4") simp_all
        ultimately show ?thesis using d by (simp add: dial_inv_def)
      qed
    next
      case (CliConnected i ns se)
      with assms(1) d show ?thesis
        by (auto simp: step_def dial_inv_def on_connected_def NewSubscription_def Let_def
              log_Msg_def log_Msgf_def
              go_panic_def split: if_splits option.splits)
    next
      case Create
      with assms(1) d show ?thesis
        by (auto simp: step_def dial_inv_def main_Create_def wg_Add_def go_panic_def
              log_Msgf_def split: if_splits pc.splits)
    qed (use assms(1) d in \<open>auto simp: step_def dial_inv_def main_New_def main_Run_def
           main_Routes_def main_Wait_def main_Notify_def main_Recv_def listen_start_def
           deliver_def loop_head_def go_panic_def log_Msg_def log_Msgf_def
         split: if_splits option.splits list.splits\<close>)
  qed
qed

lemma run_calls_inv:
  assumes "run tr init = Some s"
  shows "calls_ok s \<and> dial_inv s"
  using assms
proof (rule run_invariant [where P = "\<lambda>s. calls_ok s \<and> dial_inv s"])
  show "calls_ok init \<and> dial_inv init"
    by (simp add: calls_ok_def dial_inv_def init_def in_loop_def)
qed (auto intro: step_calls_ok step_dial_inv)

lemma step_sub_calls:
  assumes "step e s = Some s'"
  shows "filter is_sub (calls s') = filter is_sub (calls s) @ sub_calls_of e"
proof (cases e)
  case (SubEvent i ev)
  then show ?thesis using assms
    by (cases ev) (auto simp: step_def log_Msgf_def split: if_splits)
next
  case (CliConnected i ns se)
  then show ?thesis using assms
    by (cases "fst ns")
       (auto simp: step_def on_connected_def NewSubscription_def Let_def log_Msg_def
          log_Msgf_def go_panic_def split: if_splits option.splits)
qed (use assms in \<open>auto simp: step_def handler_defs
       split: if_splits pc.splits option.splits list.splits\<close>)

lemma run_sub_calls:
  "run tr init = Some s \<Longrightarrow> filter is_sub (calls s) = concat (map sub_calls_of tr)"
proof (induction tr arbitrary: s rule: rev_induct)
  case Nil
  then show ?case by (auto simp: init_def)
next
  case (snoc e tr)
  then obtain s0 where s0: "run tr init = Some s0" "step e s0 = Some s"
    by (auto simp: run_append split: option.splits)
  from step_sub_calls [OF s0(2)] snoc.IH [OF s0(1)] show ?case by simp
qed

lemma step_listener:
  assumes "step e s = Some s'" and "e \<noteq> Routes" and "e \<noteq> ListenStart"
    and "\<forall>r. e \<noteq> ListenReturn r"
  shows "listener s' = listener s"
proof (cases e)
  case (SubEvent i ev)
  then show ?thesis using assms
    by (cases ev) (auto simp: step_def log_Msgf_def split: if_splits)
qed (use assms in \<open>auto simp: step_def handler_defs
       split: if_splits pc.splits option.splits list.splits\<close>)

lemma step_listen_calls:
  assumes "step e s = Some s'" and "e \<noteq> ListenStart"
  shows "filter is_listen (calls s') = filter is_listen (calls s)"
proof (cases e)
  case (SubEvent i ev)
  then show ?thesis using assms
    by (cases ev) (auto simp: step_def log_Msgf_def split: if_splits)
qed (use assms in \<open>auto simp: step_def handler_defs
       split: if_splits pc.splits option.splits list.splits\<close>)

lemma step_early:
  assumes "step e s = Some s'" and "pc s' = AtNew \<or> pc s' = AtRun \<or> pc s' = AtRoutes"
  shows "pc s = AtNew \<or> pc s = AtRun \<or> pc s = AtRoutes"
proof (cases e)
  case (SubEvent i ev)
  then show ?thesis using assms
    by (cases ev) (auto simp: step_def log_Msgf_def split: if_splits)
qed (use assms in \<open>auto simp: step_def handler_defs
       split: if_splits pc.splits option.splits list.splits\<close>)

lemma step_listen_inv:
  assumes "step e s = Some s'" and "listen_inv s"
  shows "listen_inv s'"
proof -
  consider "e = Routes" | "e = ListenStart" | r where "e = ListenReturn r"
    | "e \<noteq> Routes" "e \<noteq> ListenStart" "\<forall>r. e \<noteq> ListenReturn r" by blast
  then show ?thesis
  proof cases
    case 1
    with assms show ?thesis
      by (auto simp: step_def listen_inv_def main_Routes_def loop_head_def split: if_splits)
  next
    case 2
    with assms show ?thesis
      by (auto simp: step_def listen_inv_def listen_start_def log_Msgf_def split: if_splits)
  next
    case 3
    with assms show ?thesis
      by (auto simp: step_def listen_inv_def listen_return_def go_panic_def
            split: if_splits option.splits)
  next
    case 4
    from step_listener [OF assms(1) 4] step_listen_calls [OF assms(1) 4(2)]
      step_early [OF assms(1)] assms(2)
    show ?thesis by (auto simp: listen_inv_def)
  qed
qed

lemma run_listen_inv: "run tr init = Some s \<Longrightarrow> listen_inv s"
proof (rule run_invariant [where P = listen_inv])
  show "listen_inv init" by (simp add: listen_inv_def init_def)
qed (auto intro: step_listen_inv)

lemma connected_hook_subscribes:
  assumes "status s = Running" and "started i s"
  shows "\<exists>s'. step (CliConnected i outcome sub_err) s = Some s'
           \<and> calls s' = calls s @ sub_calls_of (CliConnected i outcome sub_err)"
  using assms
  by (cases "fst outcome")
     (auto simp: step_def on_connected_def NewSubscription_def Let_def log_Msg_def
        log_Msgf_def go_panic_def split: option.splits)

text \<open>
  C7. In every run:
  \<^item> the server listens on port 8000: once the listener goroutine has started,
    \<^verbatim>\<open>http.ListenAndServe\<close> has been called exactly once, on \<^verbatim>\<open>:8000\<close> (never before);
  \<^item> each \<^verbatim>\<open>Connect\<close> is made by one of the four clients, on a client whose endpoint is
    \<^verbatim>\<open>ws://localhost:8000/connection/websocket\<close>, and once the loop of \<^verbatim>\<open>main\<close> is over
    the \<^verbatim>\<open>Connect\<close> calls made are exactly those of clients 0 to 3, in order;
  \<^item> every client subscribes to the one channel: the subscription calls made are
    exactly those the connected events of the run call for, in order, each connected event
    of client \<open>i\<close> giving \<^verbatim>\<open>NewSubscription\<close> on \<^verbatim>\<open>com.jtbonhomme.server\<close> and, when a
    subscription came back, \<^verbatim>\<open>Subscribe\<close> on that channel; and whenever client \<open>i\<close> has
    entered \<^verbatim>\<open>Connect\<close> and the process runs, its connected hook can run and makes just
    these calls;
  \<^item> no other port, endpoint, channel or client appears in any call.
\<close>

theorem fixed_port_endpoint_channel:
  assumes "run tr init = Some s"
  shows "list_all conforms (calls s)
       \<and> filter is_listen (calls s)
           = (if listener s = Serving \<or> listener s = Finished
              then [CallListenAndServe '':8000''] else [])
       \<and> (pc s = AtWait \<or> past_barrier (pc s) \<longrightarrow>
            filter is_connect (calls s)
              = map (\<lambda>i. CallConnect i ''ws://localhost:8000/connection/websocket'') [0..<4])
       \<and> filter is_sub (calls s) = concat (map sub_calls_of tr)
       \<and> (status s = Running \<and> started i s \<longrightarrow>
            i < 4
            \<and> (\<exists>s'. step (CliConnected i outcome sub_err) s = Some s'
                  \<and> calls s' = calls s @ CallNewSubscription i ''com.jtbonhomme.server''
                      # (case fst outcome of None \<Rightarrow> []
                         | Some sb \<Rightarrow> [CallSubscribe i ''com.jtbonhomme.server''])))"
proof -
  from run_calls_inv [OF assms] have ok: "calls_ok s" and d: "dial_inv s" by simp_all
  from d have dial: "pc s = AtWait \<or> past_barrier (pc s) \<Longrightarrow>
      filter is_connect (calls s) = map (\<lambda>i. CallConnect i wsURL) [0..<4]"
    by (cases "pc s") (auto simp: dial_inv_def)
  from run_listen_inv [OF assms] have listen: "filter is_listen (calls s)
           = (if listener s = Serving \<or> listener s = Finished
              then [CallListenAndServe '':8000''] else [])"
    by (simp add: listen_inv_def)
  have hook: "i < 4
            \<and> (\<exists>s'. step (CliConnected i outcome sub_err) s = Some s'
                  \<and> calls s' = calls s @ CallNewSubscription i ''com.jtbonhomme.server''
                      # (case fst outcome of None \<Rightarrow> []
                         | Some sb \<Rightarrow> [CallSubscribe i ''com.jtbonhomme.server'']))"
    if "status s = Running" "started i s"
    using connected_hook_subscribes [OF that, of outcome sub_err] started_lt_4 [OF ok that(2)]
    by simp
  from ok dial listen run_sub_calls [OF assms] hook show ?thesis
    by (simp add: calls_ok_def wsURL_def)
qed

lemma subscribed_run: "run subscribed init = Some (state_after subscribed)"
  by (simp add: subscribed_def created_def run_defs handler_defs)

lemma subscribed_ends:
  "pc (state_after subscribed) = AtRecv \<and> listener (state_after subscribed) = Serving
   \<and> status (state_after subscribed) = Running"
  by (simp add: subscribed_def created_def run_defs handler_defs)

theorem fixed_port_endpoint_channel_witness:
  "run subscribed init = Some (state_after subscribed)
   \<and> status (state_after subscribed) = Running \<and> started 3 (state_after subscribed)
   \<and> list_all conforms (calls (state_after subscribed))
   \<and> filter is_listen (calls (state_after subscribed)) = [CallListenAndServe '':8000'']
   \<and> filter is_connect (calls (state_after subscribed))
       = [CallConnect 0 ''ws://localhost:8000/connection/websocket'',
          CallConnect 1 ''ws://localhost:8000/connection/websocket'',
          CallConnect 2 ''ws://localhost:8000/connection/websocket'',
          CallConnect 3 ''ws://localhost:8000/connection/websocket'']
   \<and> filter is_sub (calls (state_after subscribed))
       = [CallNewSubscription 0 ''com.jtbonhomme.server'', CallSubscribe 0 ''com.jtbonhomme.server'',
          CallNewSubscription 1 ''com.jtbonhomme.server'', CallSubscribe 1 ''com.jtbonhomme.server'',
          CallNewSubscription 2 ''com.jtbonhomme.server'', CallSubscribe 2 ''com.jtbonhomme.server'',
          CallNewSubscription 3 ''com.jtbonhomme.server'', CallSubscribe 3 ''com.jtbonhomme.server'']
   \<and> (\<exists>s'. step (CliConnected 3 duplicate None) (state_after subscribed) = Some s'
         \<and> calls s' = calls (state_after subscribed)
             @ [CallNewSubscription 3 ''com.jtbonhomme.server''])"
proof -
  have ends: "pc (state_after subscribed) = AtRecv" "listener (state_after subscribed) = Serving"
    and run: "status (state_after subscribed) = Running"
    using subscribed_ends by simp_all
  have st: "started 3 (state_after subscribed)"
    by (simp add: subscribed_def created_def run_defs handler_defs)
  have u: "[0..<4] = [0, 1, 2, 3::nat]" by (simp add: upt_rec)
  have subs: "concat (map sub_calls_of subscribed)
       = [CallNewSubscription 0 ''com.jtbonhomme.server'', CallSubscribe 0 ''com.jtbonhomme.server'',
          CallNewSubscription 1 ''com.jtbonhomme.server'', CallSubscribe 1 ''com.jtbonhomme.server'',
          CallNewSubscription 2 ''com.jtbonhomme.server'', CallSubscribe 2 ''com.jtbonhomme.server'',
          CallNewSubscription 3 ''com.jtbonhomme.server'', CallSubscribe 3 ''com.jtbonhomme.server'']"
    by (simp add: subscribed_def startup_def boot_def created_def)
  from fixed_port_endpoint_channel [OF subscribed_run, of 3 duplicate None] ends run st subs
  show ?thesis using subscribed_run by (simp add: u duplicate_def)
qed

section \<open>The final wait\<close>

lemma step_interrupt:
  assumes "step e s = Some s'" and "e \<noteq> Notify" and "e \<noteq> Recv" and "\<forall>sg. e \<noteq> Signal sg"
  shows "interrupt s' = interrupt s"
proof (cases e)
  case (SubEvent i ev)
  then show ?thesis using assms
    by (cases ev) (auto simp: step_def log_Msgf_def split: if_splits)
qed (use assms in \<open>auto simp: step_def handler_defs
       split: if_splits pc.splits option.splits\<close>)

lemma step_at_recv:
  assumes "step e s = Some s'" and "pc s = AtRecv" and "e \<noteq> Recv"
  shows "pc s' = AtRecv"
proof (cases e)
  case (SubEvent i ev)
  then show ?thesis using assms
    by (cases ev) (auto simp: step_def log_Msgf_def split: if_splits)
qed (use assms in \<open>auto simp: step_def handler_defs
       split: if_splits option.splits\<close>)

lemma step_sig_inv:
  assumes "step e s = Some s'" and "sig_inv s"
  shows "sig_inv s'"
proof -
  from assms(1) have running: "status s = Running" by (simp add: step_def split: if_splits)
  consider "e = Notify" | "e = Recv" | sg where "e = Signal sg"
    | "e \<noteq> Notify" "e \<noteq> Recv" "\<forall>sg. e \<noteq> Signal sg" by blast
  then show ?thesis
  proof cases
    case 1
    with assms show ?thesis by (auto simp: step_def sig_inv_def main_Notify_def split: if_splits)
  next
    case 2
    with assms show ?thesis
      by (auto simp: step_def sig_inv_def main_Recv_def log_Msg_def
            split: if_splits option.splits list.splits)
  next
    case 3
    with assms show ?thesis
      by (auto simp: step_def sig_inv_def deliver_def split: if_splits option.splits)
  next
    case 4
    show ?thesis
    proof (cases "interrupt s")
      case None
      with step_interrupt [OF assms(1) 4] show ?thesis by (simp add: sig_inv_def)
    next
      case (Some q)
      with assms(2) running have "pc s = AtRecv" "length q \<le> 1" by (simp_all add: sig_inv_def)
      with step_interrupt [OF assms(1) 4] step_at_recv [OF assms(1) _ 4(2)] Some
      show ?thesis by (simp add: sig_inv_def)
    qed
  qed
qed

lemma run_sig_inv: "run tr init = Some s \<Longrightarrow> sig_inv s"
proof (rule run_invariant [where P = sig_inv])
  show "sig_inv init" by (simp add: sig_inv_def init_def)
qed (auto intro: step_sig_inv)

text \<open>
  C8. At any point of a run after \<^verbatim>\<open>signal.Notify\<close> has installed the handler, while the
  process runs: main stands at the receive of line 108; a SIGINT or SIGTERM \<open>sig\<close> can be
  delivered, after which main can take the receive, logs the signal received and
  \<^verbatim>\<open>exit\<close>, and returns, so the process exits (the signal logged is \<open>sig\<close> when none was
  pending); while no signal is pending the receive is blocked, and no event other than a
  signal makes it possible; once a signal is delivered the receive stays possible for as
  long as the process runs.
\<close>

theorem signal_ends_final_wait:
  assumes "run tr init = Some s" and "status s = Running" and "interrupt s \<noteq> None"
  shows "pc s = AtRecv
    \<and> (\<exists>s1 s2 sg. step (Signal sig) s = Some s1 \<and> step Recv s1 = Some s2
          \<and> status s2 = Exited \<and> pc s2 = Returned
          \<and> logs s2 = logs s @ [Msg InfoLevel (''received signal: '' @ signal_String sg),
                                 Msg InfoLevel ''exit'']
          \<and> (interrupt s = Some [] \<longrightarrow> sg = sig))
    \<and> (interrupt s = Some [] \<longrightarrow>
          step Recv s = None
          \<and> (\<forall>e s'. step e s = Some s' \<and> (\<forall>sg. e \<noteq> Signal sg) \<longrightarrow> step Recv s' = None))
    \<and> (\<forall>s1 e s'. step (Signal sig) s = Some s1 \<and> step e s1 = Some s' \<and> e \<noteq> Recv
          \<and> status s' = Running \<longrightarrow> step Recv s' \<noteq> None)"
proof -
  from assms obtain q where q: "interrupt s = Some q" by auto
  with run_sig_inv [OF assms(1)] assms(2) have pc: "pc s = AtRecv" and len: "length q \<le> 1"
    by (simp_all add: sig_inv_def)
  have sent: "\<exists>s1 s2 sg. step (Signal sig) s = Some s1 \<and> step Recv s1 = Some s2
          \<and> status s2 = Exited \<and> pc s2 = Returned
          \<and> logs s2 = logs s @ [Msg InfoLevel (''received signal: '' @ signal_String sg),
                                 Msg InfoLevel ''exit'']
          \<and> (interrupt s = Some [] \<longrightarrow> sg = sig)"
    using assms(2) pc q len
    by (cases q) (auto simp: step_def deliver_def main_Recv_def log_Msg_def)
  have blocked: "step Recv s = None" if "interrupt s = Some []"
    using that by (simp add: step_def)
  have still: "step Recv s' = None"
    if e: "step e s = Some s'" "\<forall>sg. e \<noteq> Signal sg" and empty: "interrupt s = Some []" for e s'
  proof -
    from e(1) pc have "e \<noteq> Notify" by (auto simp: step_def split: if_splits)
    moreover from e(1) empty have "e \<noteq> Recv" by (auto simp: step_def split: if_splits)
    ultimately have "interrupt s' = Some []" using step_interrupt [OF e(1)] e(2) empty by simp
    then show ?thesis by (simp add: step_def)
  qed
  have stays: "step Recv s' \<noteq> None"
    if "step (Signal sig) s = Some s1" "step e s1 = Some s'" "e \<noteq> Recv" "status s' = Running"
    for s1 e s'
  proof -
    from that(1) assms(2) q len obtain sg where s1: "interrupt s1 = Some [sg]" "pc s1 = AtRecv"
      using pc by (cases q) (auto simp: step_def deliver_def)
    from that(2) s1 have ne: "e \<noteq> Notify" by (auto simp: step_def split: if_splits)
    have pc': "pc s' = AtRecv" by (rule step_at_recv [OF that(2) s1(2) that(3)])
    have "\<exists>sg'. interrupt s' = Some [sg']"
    proof (cases "\<exists>sg'. e = Signal sg'")
      case True
      with that(2) s1 show ?thesis by (auto simp: step_def deliver_def split: if_splits)
    next
      case False
      with step_interrupt [OF that(2) ne that(3)] s1 show ?thesis by simp
    qed
    with pc' that(4) show ?thesis by (auto simp: step_def)
  qed
  from pc sent blocked still stays show ?thesis by blast
qed

lemma startup_run: "run startup init = Some (state_after startup)"
  by (simp add: run_defs handler_defs)

theorem signal_ends_final_wait_witness:
  "run startup init = Some (state_after startup)
   \<and> status (state_after startup) = Running
   \<and> interrupt (state_after startup) \<noteq> None
   \<and> pc (state_after startup) = AtRecv
   \<and> step Recv (state_after startup) = None
   \<and> (\<exists>s1 s2. step (Signal SIGTERM) (state_after startup) = Some s1
         \<and> step Recv s1 = Some s2 \<and> status s2 = Exited
         \<and> logs s2 = logs (state_after startup)
             @ [Msg InfoLevel ''received signal: terminated'', Msg InfoLevel ''exit''])"
proof -
  have run: "status (state_after startup) = Running"
    and empty: "interrupt (state_after startup) = Some []"
    using startup_runs by simp_all
  then have installed: "interrupt (state_after startup) \<noteq> None" by simp
  from signal_ends_final_wait [OF startup_run run installed, of SIGTERM] empty
  have "pc (state_after startup) = AtRecv" and "step Recv (state_after startup) = None"
    and "\<exists>s1 s2. step (Signal SIGTERM) (state_after startup) = Some s1
         \<and> step Recv s1 = Some s2 \<and> status s2 = Exited
         \<and> logs s2 = logs (state_after startup)
             @ [Msg InfoLevel (''received signal: '' @ signal_String SIGTERM),
                Msg InfoLevel ''exit'']"
    by blast+
  with startup_run run installed show ?thesis by simp
qed

section \<open>The startup barrier\<close>

lemma accepted_append: "accepted (es @ es') = accepted es @ accepted es'"
  by (induction es rule: accepted.induct) simp_all

lemma run_snoc:
  "run (tr @ [e]) s0 = Some s' \<longleftrightarrow> (\<exists>s. run tr s0 = Some s \<and> step e s = Some s')"
  by (simp add: run_append split: option.splits)

lemma bystander_frame:
  assumes "step e s = Some s'" and "bystander e"
  shows "pc s' = pc s \<and> wg s' = wg s \<and> accepted [e] = []"
proof (cases e)
  case (SubEvent i ev)
  then show ?thesis using assms
    by (cases ev) (auto simp: step_def log_Msgf_def split: if_splits)
qed (use assms in \<open>auto simp: step_def handler_defs
       split: if_splits option.splits list.splits\<close>)

lemma step_wg_inv:
  assumes "step e s = Some s'" and "wg_inv tr s" and "calls_ok s"
  shows "wg_inv (tr @ [e]) s'"
proof -
  from assms(1) have running: "status s = Running" by (simp add: step_def split: if_splits)
  with assms(2) have wg: "wg s = int (adds (pc s)) - int (length (accepted tr))"
    and nn: "0 \<le> wg s" and pb: "past_barrier (pc s) \<Longrightarrow> 4 \<le> length (accepted tr)"
    by (simp_all add: wg_inv_def)
  show ?thesis
  proof (cases "bystander e")
    case True
    from bystander_frame [OF assms(1) True] wg nn pb show ?thesis
      by (simp add: wg_inv_def accepted_append)
  next
    case False
    then show ?thesis
    proof (cases e)
      case (SrvConnect p c)
      with assms(1) wg nn pb show ?thesis
        by (auto simp: step_def wg_inv_def accepted_append on_connect_def wg_Done_def
              wg_Add_def go_panic_def log_Msgf_def split: if_splits)
    next
      case Create
      with assms(1) wg nn pb show ?thesis
        by (auto simp: step_def wg_inv_def accepted_append main_Create_def wg_Add_def
              go_panic_def log_Msgf_def split: if_splits pc.splits)
    next
      case (Connect r)
      from assms(1,3) have "wg_inv (tr @ [Connect r]) s'" unfolding Connect
      proof (rule connect_cases)
        fix i assume "pc s = AtConnect i" "pc s' = AtConnect i" "status s' \<noteq> Running"
          "wg s' = wg s"
        with nn show ?thesis by (simp add: wg_inv_def accepted_append)
      next
        fix i assume i: "pc s = AtConnect i" "i < 4" "wg s' = wg s"
          "pc s' = (if Suc i < 4 then AtCreate (Suc i) else AtWait)"
        then have "adds (pc s') = Suc i" by (cases "Suc i < 4") simp_all
        with i wg nn show ?thesis by (auto simp: wg_inv_def accepted_append)
      qed
      then show ?thesis by (simp add: Connect)
    next
      case Wait
      with assms(1) wg nn show ?thesis
        by (auto simp: step_def wg_inv_def accepted_append main_Wait_def log_Msgf_def
              split: if_splits)
    next
      case (New r)
      with assms(1) wg nn show ?thesis
        by (auto simp: step_def wg_inv_def accepted_append main_New_def go_panic_def
              split: if_splits option.splits)
    next
      case (Run r)
      with assms(1) wg nn show ?thesis
        by (auto simp: step_def wg_inv_def accepted_append main_Run_def go_panic_def
              split: if_splits option.splits)
    next
      case Routes
      with assms(1) wg nn show ?thesis
        by (auto simp: step_def wg_inv_def accepted_append main_Routes_def loop_head_def
              split: if_splits)
    next
      case Notify
      with assms(1) wg nn pb show ?thesis
        by (auto simp: step_def wg_inv_def accepted_append main_Notify_def split: if_splits)
    next
      case Recv
      with assms(1) wg nn pb show ?thesis
        by (auto simp: step_def wg_inv_def accepted_append main_Recv_def log_Msg_def
              split: if_splits option.splits list.splits)
    qed (use False in simp_all)
  qed
qed

lemma run_wg_inv: "run tr init = Some s \<Longrightarrow> wg_inv tr s"
proof (induction tr arbitrary: s rule: rev_induct)
  case Nil
  then show ?case by (auto simp: wg_inv_def init_def)
next
  case (snoc e tr)
  then obtain s0 where s0: "run tr init = Some s0" "step e s0 = Some s"
    by (auto simp: run_snoc)
  from step_wg_inv [OF s0(2) snoc.IH [OF s0(1)]] run_calls_inv [OF s0(1)]
  show ?case by simp
qed

text \<open>
  What the barrier does guarantee: main is past \<^verbatim>\<open>wg.Wait()\<close> only after the on-connect
  hook has run at least four times, and exactly four times while the process still runs
  (a fifth run panics on the negative counter).
\<close>

lemma barrier_counts_accepts:
  assumes "run tr init = Some s" and "past_barrier (pc s)"
  shows "4 \<le> length (accepted tr)
       \<and> (status s = Running \<longrightarrow> length (accepted tr) = 4 \<and> wg s = 0)"
  using run_wg_inv [OF assms(1)] assms(2) by (cases "pc s") (auto simp: wg_inv_def)

text \<open>
  C1 (the code departs from it). The counter is a count of on-connect callbacks, and the
  callback runs for every connection the node accepts on its public endpoint. With three
  of the clients and one outside peer accepted, the counter is zero: main passes
  \<^verbatim>\<open>wg.Wait()\<close> and logs \<^verbatim>\<open>all client  connected\<close> although the connection of
  \<^verbatim>\<open>clients[3]\<close> has not been accepted; when it is, \<^verbatim>\<open>wg.Done()\<close> panics. The same
  happens with no outside peer when one client is accepted twice, after a reconnect.
\<close>

theorem barrier_opens_without_fourth_client:
  "map_option (\<lambda>s. (status s, pc s, wg s, last (logs s))) (run early_release init)
     = Some (Running, AtNotify, 0, Msgf InfoLevel ''all client  connected'' [])
   \<and> accepted early_release = [Player 0, Player 1, Player 2, Outside]
   \<and> map_option status (run (early_release @ [SrvConnect (Player 3) (peer_of ''d'')]) init)
     = Some (Panicked (RuntimeError ''sync: negative WaitGroup counter''))
   \<and> map_option (\<lambda>s. (status s, pc s)) (run early_reconnect init) = Some (Running, AtNotify)
   \<and> accepted early_reconnect = [Player 0, Player 0, Player 1, Player 2]"
  by (simp add: early_release_def early_reconnect_def run_defs handler_defs)

section \<open>What ends the process\<close>

lemma step_clients:
  assumes "step e s = Some s'" and "e \<noteq> Routes" and "e \<noteq> Create"
  shows "clients s' = clients s"
proof (cases e)
  case (SubEvent i ev)
  then show ?thesis using assms
    by (cases ev) (auto simp: step_def log_Msgf_def split: if_splits)
qed (use assms in \<open>auto simp: step_def handler_defs
       split: if_splits pc.splits option.splits list.splits\<close>)

lemma step_pc_same:
  assumes "step e s = Some s'" and "bystander e \<or> (\<exists>p c. e = SrvConnect p c)"
  shows "pc s' = pc s"
proof (cases e)
  case (SubEvent i ev)
  then show ?thesis using assms
    by (cases ev) (auto simp: step_def log_Msgf_def split: if_splits)
qed (use assms in \<open>auto simp: step_def handler_defs
       split: if_splits option.splits list.splits\<close>)

lemma step_loop_inv:
  assumes "step e s = Some s'" and "loop_inv s" and "calls_ok s"
  shows "loop_inv s'"
proof (cases "bystander e \<or> (\<exists>p c. e = SrvConnect p c)")
  case True
  then have "e \<noteq> Routes" "e \<noteq> Create" by auto
  from step_clients [OF assms(1) this] step_pc_same [OF assms(1) True] assms(2)
  show ?thesis by (auto simp: loop_inv_def split: pc.splits)
next
  case False
  then show ?thesis
  proof (cases e)
    case Create
    with assms(1,2) show ?thesis
      by (auto simp: step_def loop_inv_def main_Create_def wg_Add_def go_panic_def
            log_Msgf_def split: if_splits pc.splits)
  next
    case (Connect r)
    from assms(1,3) have "loop_inv s'" unfolding Connect
    proof (rule connect_cases)
      fix i assume "pc s = AtConnect i" "pc s' = AtConnect i" "clients s' = clients s"
      with assms(2) show ?thesis by (simp add: loop_inv_def)
    next
      fix i assume "pc s = AtConnect i" "clients s' = clients s"
        "pc s' = (if Suc i < 4 then AtCreate (Suc i) else AtWait)"
      with assms(2) show ?thesis by (simp add: loop_inv_def)
    qed
    then show ?thesis .
  next
    case Routes
    with assms(1) show ?thesis
      by (auto simp: step_def loop_inv_def main_Routes_def loop_head_def split: if_splits)
  qed (use False assms(1) in \<open>auto simp: step_def loop_inv_def main_New_def main_Run_def
         main_Wait_def main_Notify_def main_Recv_def go_panic_def log_Msg_def log_Msgf_def
       split: if_splits option.splits list.splits\<close>)
qed

lemma run_loop_inv:
  assumes "run tr init = Some s"
  shows "calls_ok s \<and> loop_inv s"
  using assms
proof (rule run_invariant [where P = "\<lambda>s. calls_ok s \<and> loop_inv s"])
  show "calls_ok init \<and> loop_inv init"
    by (simp add: calls_ok_def loop_inv_def init_def in_loop_def)
qed (auto intro: step_calls_ok step_loop_inv)

text \<open>
  Every way a running process stops, in any run: one of the four library calls that main
  and the listener check returned an error (\<^verbatim>\<open>panic\<close>); main returned after a signal; a
  signal arrived before the handler was installed; the on-connect hook ran with the counter
  at zero; a client's connected hook was handed no subscription.
\<close>

lemma process_stops_only_by:
  assumes "run tr init = Some s" and "step e s = Some s'" and "status s' \<noteq> Running"
  shows "(\<exists>err. e = New (Some err) \<or> e = Run (Some err) \<or> e = ListenReturn (Some err)
            \<or> e = Connect (Some err))
       \<or> e = Recv
       \<or> (\<exists>sg. e = Signal sg \<and> interrupt s = None)
       \<or> (\<exists>p c. e = SrvConnect p c \<and> wg s = 0)
       \<or> (\<exists>i err se. e = CliConnected i (None, err) se)"
proof -
  from assms(2) have running: "status s = Running" by (simp add: step_def split: if_splits)
  from run_loop_inv [OF assms(1)] have li: "loop_inv s" by simp
  from run_wg_inv [OF assms(1)] have nn: "0 \<le> wg s" by (simp add: wg_inv_def)
  show ?thesis
  proof (cases e)
    case (SubEvent i ev)
    with assms(2,3) running show ?thesis
      by (cases ev) (auto simp: step_def log_Msgf_def split: if_splits)
  next
    case Create
    with assms(2,3) running li nn show ?thesis
      by (auto simp: step_def loop_inv_def main_Create_def wg_Add_def go_panic_def
            log_Msgf_def split: if_splits pc.splits)
  next
    case (Connect r)
    with assms(2,3) running li show ?thesis
      by (auto simp: step_def loop_inv_def main_Connect_def loop_head_def Let_def log_Msgf_def
          split: if_splits pc.splits option.splits)
  next
    case (SrvConnect p c)
    with assms(2,3) running nn show ?thesis
      by (auto simp: step_def on_connect_def wg_Done_def wg_Add_def go_panic_def log_Msgf_def
          split: if_splits)
  next
    case (CliConnected i ns se)
    with assms(2,3) running show ?thesis
      by (cases ns) (auto simp: step_def on_connected_def NewSubscription_def Let_def
          log_Msg_def log_Msgf_def
          split: if_splits option.splits)
  qed (use assms(2,3) running in \<open>auto simp: step_def handler_defs
         split: if_splits option.splits list.splits\<close>)
qed

text \<open>
  A failure of \<^verbatim>\<open>subServer.Subscribe()\<close> is logged and nothing more: the hook returns with
  the status of the process unchanged.
\<close>

lemma activation_failure_only_logged:
  "on_connected i (Some sb, None) (Some e) s =
     s\<lparr>logs := logs s @ [Msg InfoLevel ''Connected'',
                            Msgf ErrorLevel ''subscription error: %s'' [ArgS e]],
       calls := calls s @ [CallNewSubscription i ''com.jtbonhomme.server'',
                            CallSubscribe i ''com.jtbonhomme.server''],
       sub_hooks := sub_hooks s @ [(i, Subscription ''com.jtbonhomme.server'')]\<rparr>"
  by (simp add: on_connected_def NewSubscription_def Let_def log_Msg_def log_Msgf_def)

text \<open>
  C2 (the code departs from it). When \<^verbatim>\<open>NewSubscription\<close> fails on the connected event
  (it returns no subscription and an error, as on a reconnect, where the channel's
  subscription exists already), the hook logs the error and then calls
  \<^verbatim>\<open>subServer.OnJoin\<close> on the nil subscription: the process panics. Seen after startup, and
  during startup, where no further client can complete it.
\<close>

theorem creation_failure_is_fatal:
  "map_option (\<lambda>s. (status s, logs s))
       (step (CliConnected 0 duplicate None) (state_after startup))
     = Some (Panicked (RuntimeError ''invalid memory address or nil pointer dereference''),
             logs (state_after startup)
               @ [Msg InfoLevel ''Connected'',
                  Msgf ErrorLevel ''subscription creation error: %s''
                    [ArgS ''duplicate subscription'']])
   \<and> map_option status
       (run (boot @ [CliConnected 0 duplicate None]) init)
     = Some (Panicked (RuntimeError ''invalid memory address or nil pointer dereference''))
   \<and> run (boot @ [CliConnected 0 duplicate None, SrvConnect (Player 1) (peer_of ''b'')]) init
     = None"
  by (simp add: duplicate_def run_defs handler_defs)

text \<open>
  C3 (the code departs from it). A run in which the node is built and started, the listener
  never returns and all four \<^verbatim>\<open>Connect\<close> calls succeed, and the process still aborts:
  client 2 reconnects and the creation of its subscription fails.
\<close>

theorem abort_outside_the_three_conditions:
  "map_option status
     (run [New None, Run None, Routes, ListenStart,
           Create, Connect None, Create, Connect None, Create, Connect None, Create,
           Connect None,
           SrvConnect (Player 0) (peer_of ''a''), SrvConnect (Player 1) (peer_of ''b''),
           SrvConnect (Player 2) (peer_of ''c''), SrvConnect (Player 3) (peer_of ''d''),
           Wait, Notify,
           CliConnected 2 (Some (Subscription ''com.jtbonhomme.server''), None) None,
           CliDisconnected 2 3000 ''connection closed'',
           CliConnected 2 (None, Some ''duplicate subscription'') None] init)
   = Some (Panicked (RuntimeError ''invalid memory address or nil pointer dereference''))"
  by (simp add: run_defs handler_defs)

end
